theory Spec2Isabelle
  imports Main "HOL-Library.AList"
begin

section \<open>Tokenizer\<close>

text \<open>
  A line is a \<^typ>\<open>string\<close>; each \<^typ>\<open>char\<close> stands for one code point below 256.
  \<open>isspace\<close> is Python's \<^verbatim>\<open>str.isspace\<close> on one such character: the code points
  9 to 13, 28 to 32, 133 and 160.
\<close>

definition isspace :: "char \<Rightarrow> bool" where
  "isspace ch = (of_char ch \<in> {9::nat, 10, 11, 12, 13, 28, 29, 30, 31, 32, 133, 160})"

text \<open>The list \<^verbatim>\<open>['|', '<', '>', '&']\<close> of single-character operators.\<close>

definition specials :: "char list" where
  "specials = [CHR ''|'', CHR ''<'', CHR ''>'', CHR ''&'']"

text \<open>The list \<^verbatim>\<open>['"', "'"]\<close> of quote characters.\<close>

definition quotes :: "char list" where
  "quotes = [CHR 0x22, CHR 0x27]"

text \<open>
  The condition of the inner loop of a normal token:
  \<^verbatim>\<open>not line[i].isspace() and line[i] not in ['|', '<', '>', '&', '"', "'"]\<close>.
\<close>

definition word_char :: "char \<Rightarrow> bool" where
  "word_char c = (\<not> isspace c \<and> c \<notin> set (specials @ quotes))"

text \<open>
  \<open>tokenize\<close> follows the \<^verbatim>\<open>while i < L\<close> loop of the source on the part of the line
  from index \<open>i\<close> on; the tokens appended from there on are the result. The two inner
  loops collect \<open>buf\<close> with \<^const>\<open>takeWhile\<close> and leave the index at the first character
  that fails the loop condition (\<^const>\<open>dropWhile\<close>); the closing quote is skipped only
  when the line has not ended (\<^verbatim>\<open>if i < L: i += 1\<close>).
\<close>

function tokenize :: "string \<Rightarrow> string list" where
  "tokenize [] = []"
| "tokenize (ch # rest) =
    (if isspace ch then tokenize rest
     else if ch = CHR ''>'' \<and> rest \<noteq> [] \<and> hd rest = CHR ''>'' then ''>>'' # tokenize (tl rest)
     else if ch \<in> set specials then [ch] # tokenize rest
     else if ch \<in> set quotes then
       takeWhile (\<lambda>c. c \<noteq> ch) rest #
         tokenize (case dropWhile (\<lambda>c. c \<noteq> ch) rest of [] \<Rightarrow> [] | q # after \<Rightarrow> after)
     else takeWhile word_char (ch # rest) # tokenize (dropWhile word_char (ch # rest)))"
  by pat_completeness auto
termination
proof (relation "measure length", goal_cases)
  case 1
  show ?case by simp
next
  case (2 ch rest)
  show ?case by simp
next
  case (3 ch rest)
  then show ?case by (cases rest) auto
next
  case (4 ch rest)
  show ?case by simp
next
  case (5 ch rest)
  have "length (dropWhile (\<lambda>c. c \<noteq> ch) rest) \<le> length rest"
    by (rule length_dropWhile_le)
  then show ?case by (auto split: list.splits)
next
  case (6 ch rest)
  then have "word_char ch" by (simp add: word_char_def)
  moreover have "length (dropWhile word_char rest) \<le> length rest"
    by (rule length_dropWhile_le)
  ultimately show ?case by simp
qed

section \<open>Parser\<close>

text \<open>
  A command dict of the source: \<open>argv\<close>, \<open>in\<close>, \<open>out\<close>, \<open>append\<close>, \<open>bg\<close>. The two
  paths are \<^verbatim>\<open>None\<close> or a string.
\<close>

record command =
  argv :: "string list"
  inp :: "string option"
  out :: "string option"
  append :: bool
  bg :: bool

definition new_command :: command where
  "new_command = \<lparr>argv = [], inp = None, out = None, append = False, bg = False\<rparr>"

text \<open>Python's truth value of a path: \<^verbatim>\<open>None\<close> and the empty string are false.\<close>

definition truthy :: "string option \<Rightarrow> bool" where
  "truthy p = (case p of None \<Rightarrow> False | Some s \<Rightarrow> s \<noteq> [])"

text \<open>
  The loop of \<^verbatim>\<open>parse_tokens\<close> on the tokens from index \<open>i\<close> on, with the commands
  appended so far and the current command. A redirection operator takes the next token
  as its path whatever that token is, and is skipped when it is the last token.
\<close>

fun parse_loop :: "string list \<Rightarrow> command list \<Rightarrow> command \<Rightarrow> command list \<times> command" where
  "parse_loop [] cmds cur = (cmds, cur)"
| "parse_loop (t # ts) cmds cur =
    (if t = ''|'' then parse_loop ts (cmds @ [cur]) new_command
     else if t = ''<'' then
       (case ts of [] \<Rightarrow> (cmds, cur)
        | p # ts' \<Rightarrow> parse_loop ts' cmds (cur\<lparr>inp := Some p\<rparr>))
     else if t = ''>'' then
       (case ts of [] \<Rightarrow> (cmds, cur)
        | p # ts' \<Rightarrow> parse_loop ts' cmds (cur\<lparr>out := Some p, append := False\<rparr>))
     else if t = ''>>'' then
       (case ts of [] \<Rightarrow> (cmds, cur)
        | p # ts' \<Rightarrow> parse_loop ts' cmds (cur\<lparr>out := Some p, append := True\<rparr>))
     else if t = ''&'' then parse_loop ts cmds (cur\<lparr>bg := True\<rparr>)
     else parse_loop ts cmds (cur\<lparr>argv := argv cur @ [t]\<rparr>))"

definition parse_tokens :: "string list \<Rightarrow> command list" where
  "parse_tokens tokens =
    (case parse_loop tokens [] new_command of
       (cmds, cur) \<Rightarrow>
         if argv cur \<noteq> [] \<or> truthy (inp cur) \<or> truthy (out cur) \<or> bg cur
         then cmds @ [cur] else cmds)"

definition parse_line :: "string \<Rightarrow> command list" where
  "parse_line line = parse_tokens (tokenize line)"

section \<open>Job table\<close>

text \<open>
  The status strings of the source: \<^verbatim>\<open>"running"\<close>, \<^verbatim>\<open>"stopped"\<close>,
  \<^verbatim>\<open>f"done ({exitcode})"\<close> and the \<^verbatim>\<open>'done'\<close> that \<^verbatim>\<open>fg\<close> sets.
\<close>

datatype status = Running | Stopped | DoneWith int | Done

record job =
  pids :: "int list"
  cmdline :: string
  status :: status

text \<open>What \<^verbatim>\<open>os.waitpid\<close> reports of a terminated child: \<^verbatim>\<open>WIFEXITED\<close> with its
  \<^verbatim>\<open>WEXITSTATUS\<close>, or a death by signal.\<close>

datatype wstatus = WExited int | WSignaled int

datatype open_mode = RB | WB | AB

datatype stdin_src = InheritIn | InFile string | InPipe int

datatype stdout_dst = InheritOut | OutFile string open_mode | OutPipe

record process =
  p_pid :: int
  p_argv :: "string list"
  p_stdin :: stdin_src
  p_stdout :: stdout_dst

text \<open>
  The state of the interpreter process: the globals \<^verbatim>\<open>_jobs\<close> (a dict, kept in
  insertion order) and \<^verbatim>\<open>_next_job_id\<close>, and a log of every effect on the outside:
  what was written to standard output, the processes created, the kill and wait calls,
  the pipe ends closed in the parent, the redirection files opened and closed.
\<close>

record shell =
  jobs :: "(int \<times> job) list"
  next_job_id :: int
  printed :: "string list"
  launched :: "process list"
  killed :: "int list"
  waited :: "int list"
  closed_pipes :: "int list"
  opened :: "(string \<times> open_mode) list"
  closed_files :: "(string \<times> open_mode) list"

definition initial_shell :: shell where
  "initial_shell = \<lparr>jobs = [], next_job_id = 1, printed = [], launched = [], killed = [],
     waited = [], closed_pipes = [], opened = [], closed_files = []\<rparr>"

definition print_line :: "string \<Rightarrow> shell \<Rightarrow> shell" where
  "print_line msg s = s\<lparr>printed := printed s @ [msg]\<rparr>"

text \<open>Decimal text of an integer, as an f-string formats it.\<close>

fun str_nat :: "nat \<Rightarrow> string" where
  "str_nat n =
    (if n < 10 then [char_of (48 + n)]
     else str_nat (n div 10) @ [char_of (48 + n mod 10)])"

definition str_int :: "int \<Rightarrow> string" where
  "str_int i = (if i < 0 then CHR ''-'' # str_nat (nat (- i)) else str_nat (nat i))"

definition str_exitcode :: "int option \<Rightarrow> string" where
  "str_exitcode c = (case c of None \<Rightarrow> ''None'' | Some i \<Rightarrow> str_int i)"

definition register_job :: "int list \<Rightarrow> string \<Rightarrow> status \<Rightarrow> shell \<Rightarrow> int \<times> shell" where
  "register_job ps cl st s =
    (let jid = next_job_id s;
         s1 = s\<lparr>next_job_id := next_job_id s + 1\<rparr>
     in (jid, s1\<lparr>jobs := AList.update jid \<lparr>pids = ps, cmdline = cl, status = st\<rparr> (jobs s1)\<rparr>))"

text \<open>The scan of \<^verbatim>\<open>_update_job_status\<close> over the jobs in insertion order: the first
  job that holds the pid gets the new status, and its identifier is returned.\<close>

fun update_scan :: "(int \<times> job) list \<Rightarrow> int \<Rightarrow> int option \<Rightarrow> (int \<times> job) list \<times> int option" where
  "update_scan [] pid exitcode = ([], None)"
| "update_scan ((jid, info) # rest) pid exitcode =
    (if pid \<in> set (pids info) then
       ((jid, info\<lparr>status := (case exitcode of Some c \<Rightarrow> DoneWith c | None \<Rightarrow> Stopped)\<rparr>) # rest,
        Some jid)
     else (case update_scan rest pid exitcode of (rest', r) \<Rightarrow> ((jid, info) # rest', r)))"

definition update_job_status :: "int \<Rightarrow> int option \<Rightarrow> shell \<Rightarrow> int option \<times> shell" where
  "update_job_status pid exitcode s =
    (case update_scan (jobs s) pid exitcode of (js, r) \<Rightarrow> (r, s\<lparr>jobs := js\<rparr>))"

text \<open>
  \<^verbatim>\<open>_sigchld_handler\<close>, given the results of its successive \<^verbatim>\<open>os.waitpid(-1, WNOHANG)\<close>
  calls: a pid of 0 ends the loop, and so does the \<^verbatim>\<open>ChildProcessError\<close> raised when
  no child is left (the end of the list).
\<close>

fun sigchld_handler :: "(int \<times> wstatus) list \<Rightarrow> shell \<Rightarrow> shell" where
  "sigchld_handler [] s = s"
| "sigchld_handler ((pid, st) # later) s =
    (if pid = 0 then s
     else
       let exitcode = (case st of WExited c \<Rightarrow> Some c | WSignaled sig \<Rightarrow> None);
           (jid, s1) = update_job_status pid exitcode s;
           s2 = (case jid of
                   None \<Rightarrow> s1
                 | Some j \<Rightarrow>
                     if j \<noteq> 0 then
                       print_line (''[job '' @ str_int j @ ''] process '' @ str_int pid @
                         '' exited with '' @ str_exitcode exitcode) s1
                     else s1)
       in sigchld_handler later (s2\<lparr>printed := printed s2 @ [''$ '']\<rparr>))"

section \<open>The outside of the interpreter\<close>

text \<open>
  The collaborators of one call are parameters: what opening a file gives (\<open>fs_open\<close>,
  with the text of the exception on failure), what \<^verbatim>\<open>subprocess.Popen\<close> gives for the
  stage at an index and its argv (\<open>popen\<close>: the pid of the new process, or the exception
  raised), what waiting for a process gives (\<open>proc_wait\<close>), Python's \<^verbatim>\<open>int\<close> on a
  string (\<open>py_int\<close>) and the text of a list of strings in an f-string (\<open>py_repr\<close>).
\<close>

datatype open_result = Opened | OpenFailed string

datatype popen_result = Started int | FileNotFoundError | OtherError string

datatype wait_result = Exited int | KeyboardInterrupt

record env =
  fs_open :: "string \<Rightarrow> open_mode \<Rightarrow> open_result"
  popen :: "nat \<Rightarrow> string list \<Rightarrow> popen_result"
  proc_wait :: "int \<Rightarrow> wait_result"
  py_int :: "string \<Rightarrow> int option"
  py_repr :: "string list \<Rightarrow> string"

section \<open>Pipeline executor\<close>

definition open_for_read :: "env \<Rightarrow> string \<Rightarrow> shell \<Rightarrow> (string \<times> open_mode) option \<times> shell" where
  "open_for_read e path s =
    (case fs_open e path RB of
       Opened \<Rightarrow> (Some (path, RB), s\<lparr>opened := opened s @ [(path, RB)]\<rparr>)
     | OpenFailed msg \<Rightarrow> (None, print_line (''redirection error (input): '' @ msg) s))"

definition open_for_write :: "env \<Rightarrow> string \<Rightarrow> bool \<Rightarrow> shell \<Rightarrow> (string \<times> open_mode) option \<times> shell" where
  "open_for_write e path app s =
    (let mode = (if app then AB else WB) in
     case fs_open e path mode of
       Opened \<Rightarrow> (Some (path, mode), s\<lparr>opened := opened s @ [(path, mode)]\<rparr>)
     | OpenFailed msg \<Rightarrow> (None, print_line (''redirection error (output): '' @ msg) s))"

text \<open>The local variables of \<^verbatim>\<open>run_pipeline\<close>.\<close>

record locals =
  procs :: "process list"
  prev_proc :: "process option"
  in_file :: "(string \<times> open_mode) option"
  out_file :: "(string \<times> open_mode) option"

definition kill_all :: "process list \<Rightarrow> shell \<Rightarrow> shell" where
  "kill_all ps s = s\<lparr>killed := killed s @ map p_pid ps\<rparr>"

text \<open>
  The standard input of the stage at \<open>idx\<close>: the file of an input redirection for index
  0, the output pipe of the previous process (\<^verbatim>\<open>prev_proc.stdout\<close>, which is
  \<^verbatim>\<open>None\<close> unless that process was given a pipe), or \<^verbatim>\<open>None\<close>: inherited. A failed
  open leaves \<^verbatim>\<open>None\<close> in \<open>in_file\<close> and in \<open>stdin\<close>.
\<close>

definition stage_stdin :: "env \<Rightarrow> nat \<Rightarrow> command \<Rightarrow> locals \<Rightarrow> shell \<Rightarrow> stdin_src \<times> locals \<times> shell" where
  "stage_stdin e idx cmd l s =
    (if idx = 0 \<and> truthy (inp cmd) then
       (case open_for_read e (the (inp cmd)) s of
          (f, s1) \<Rightarrow>
            ((case f of Some (path, mode) \<Rightarrow> InFile path | None \<Rightarrow> InheritIn),
             l\<lparr>in_file := f\<rparr>, s1))
     else
       (case prev_proc l of
          Some pp \<Rightarrow> ((if p_stdout pp = OutPipe then InPipe (p_pid pp) else InheritIn), l, s)
        | None \<Rightarrow> (InheritIn, l, s)))"

text \<open>
  The standard output of the stage at \<open>idx\<close> of \<open>n\<close> commands; \<open>Suc idx = n\<close> is the
  test \<^verbatim>\<open>idx == len(cmds) - 1\<close> of the source.
\<close>

definition stage_stdout :: "env \<Rightarrow> nat \<Rightarrow> nat \<Rightarrow> command \<Rightarrow> locals \<Rightarrow> shell \<Rightarrow> stdout_dst \<times> locals \<times> shell" where
  "stage_stdout e n idx cmd l s =
    (if Suc idx = n \<and> truthy (out cmd) then
       (case open_for_write e (the (out cmd)) (append cmd) s of
          (f, s1) \<Rightarrow>
            ((case f of Some (path, mode) \<Rightarrow> OutFile path mode | None \<Rightarrow> InheritOut),
             l\<lparr>out_file := f\<rparr>, s1))
     else if Suc idx \<noteq> n then (OutPipe, l, s)
     else (InheritOut, l, s))"

text \<open>
  The \<^verbatim>\<open>for idx, cmd in enumerate(cmds)\<close> loop of \<^verbatim>\<open>run_pipeline\<close> from index \<open>idx\<close>
  on, \<open>n\<close> being \<^verbatim>\<open>len(cmds)\<close>. The first component of the result is the value of an
  early \<^verbatim>\<open>return\<close>, or \<open>None\<close> when the loop ran to its end.
\<close>

fun pipeline_loop :: "env \<Rightarrow> nat \<Rightarrow> nat \<Rightarrow> command list \<Rightarrow> locals \<Rightarrow> shell \<Rightarrow>
    (bool \<times> int option) option \<times> locals \<times> shell" where
  "pipeline_loop e n idx [] l s = (None, l, s)"
| "pipeline_loop e n idx (cmd # rest) l s =
    (if argv cmd = [] then pipeline_loop e n (Suc idx) rest l s
     else
       (case stage_stdin e idx cmd l s of
          (stdin, l1, s1) \<Rightarrow>
       (case stage_stdout e n idx cmd l1 s1 of
          (stdout, l2, s2) \<Rightarrow>
       (case popen e idx (argv cmd) of
          FileNotFoundError \<Rightarrow>
            (Some (False, None), l2,
             kill_all (procs l2) (print_line (hd (argv cmd) @ '': command not found'') s2))
        | OtherError msg \<Rightarrow>
            (Some (False, None), l2,
             kill_all (procs l2)
               (print_line (''failed to execute '' @ py_repr e (argv cmd) @ '': '' @ msg) s2))
        | Started pid \<Rightarrow>
            (let proc = \<lparr>p_pid = pid, p_argv = argv cmd, p_stdin = stdin, p_stdout = stdout\<rparr>;
                 s3 = s2\<lparr>launched := launched s2 @ [proc]\<rparr>;
                 s4 = (case prev_proc l2 of
                         Some pp \<Rightarrow>
                           if p_stdout pp = OutPipe
                           then s3\<lparr>closed_pipes := closed_pipes s3 @ [p_pid pp]\<rparr> else s3
                       | None \<Rightarrow> s3)
             in pipeline_loop e n (Suc idx) rest
                  (l2\<lparr>procs := procs l2 @ [proc], prev_proc := Some proc\<rparr>) s4)))))"

text \<open>The \<^verbatim>\<open>finally\<close> block: the redirection files opened by this call are closed.\<close>

definition close_files :: "locals \<Rightarrow> shell \<Rightarrow> shell" where
  "close_files l s =
    (let s1 = (case in_file l of Some f \<Rightarrow> s\<lparr>closed_files := closed_files s @ [f]\<rparr> | None \<Rightarrow> s)
     in case out_file l of Some f \<Rightarrow> s1\<lparr>closed_files := closed_files s1 @ [f]\<rparr> | None \<Rightarrow> s1)"

text \<open>\<^verbatim>\<open>' '.join\<close> of a list of words.\<close>

fun join_sp :: "string list \<Rightarrow> string" where
  "join_sp [] = []"
| "join_sp [w] = w"
| "join_sp (w # ws) = w @ '' '' @ join_sp ws"

definition run_pipeline :: "env \<Rightarrow> command list \<Rightarrow> shell \<Rightarrow> (bool \<times> int option) \<times> shell" where
  "run_pipeline e cmds s =
    (case pipeline_loop e (length cmds) 0 cmds
            \<lparr>procs = [], prev_proc = None, in_file = None, out_file = None\<rparr> s of
       (r, l, s1) \<Rightarrow>
         (case r of
            Some ret \<Rightarrow> (ret, close_files l s1)
          | None \<Rightarrow>
              if procs l = [] then ((False, None), close_files l s1)
              else if bg (last cmds) then
                (case register_job (map p_pid (procs l)) (join_sp (concat (map argv cmds)))
                        Running s1 of
                   (jid, s2) \<Rightarrow>
                     ((True, Some jid),
                      close_files l
                        (print_line (''[job '' @ str_int jid @ ''] '' @
                           str_int (p_pid (hd (procs l)))) s2)))
              else
                (let s2 = s1\<lparr>waited := waited s1 @ [p_pid (last (procs l))]\<rparr> in
                 case proc_wait e (p_pid (last (procs l))) of
                   Exited rc \<Rightarrow> ((False, Some rc), close_files l s2)
                 | KeyboardInterrupt \<Rightarrow> ((False, None), close_files l (kill_all (procs l) s2)))))"

section \<open>The fg builtin\<close>

text \<open>
  \<^verbatim>\<open>_builtin_fg\<close>: every pid of the job is waited for, then the status of the job object
  looked up before the wait is set to \<^verbatim>\<open>'done'\<close>.
\<close>

definition builtin_fg :: "env \<Rightarrow> command \<Rightarrow> shell \<Rightarrow> bool \<times> shell" where
  "builtin_fg e cmd s =
    (if length (argv cmd) < 2 then (True, print_line ''fg: job id required'' s)
     else
       case py_int e (argv cmd ! 1) of
         None \<Rightarrow> (True, print_line ''fg: numeric job id required'' s)
       | Some jid \<Rightarrow>
           (case map_of (jobs s) jid of
              None \<Rightarrow> (True, print_line (''fg: job '' @ str_int jid @ '' not found'') s)
            | Some j \<Rightarrow>
                (let s1 = print_line (''Bringing job '' @ str_int jid @ '' to foreground: '' @
                            cmdline j) s;
                     s2 = s1\<lparr>waited := waited s1 @ pids j\<rparr>
                 in (True, s2\<lparr>jobs := AList.map_entry jid (\<lambda>info. info\<lparr>status := Done\<rparr>) (jobs s2)\<rparr>))))"

section \<open>Sequences of calls during one interpreter lifetime\<close>

text \<open>
  The calls that read or change the job table: a registration, a pipeline run, one
  invocation of the child notifier, and \<^verbatim>\<open>fg\<close>; a call that reaches the outside
  carries what the outside answers to it. \<open>step\<close> gives the job identifier the call
  issued, if any.
\<close>

datatype event =
  Register "int list" string status
| Run env "command list"
| Sigchld "(int \<times> wstatus) list"
| Fg env command

fun step :: "event \<Rightarrow> shell \<Rightarrow> int option \<times> shell" where
  "step (Register ps cl st) s = (case register_job ps cl st s of (jid, s1) \<Rightarrow> (Some jid, s1))"
| "step (Run e cmds) s =
    (case run_pipeline e cmds s of
       ((is_bg, info), s1) \<Rightarrow> (if is_bg then info else None, s1))"
| "step (Sigchld reaped) s = (None, sigchld_handler reaped s)"
| "step (Fg e cmd) s = (None, snd (builtin_fg e cmd s))"

fun run_events :: "event list \<Rightarrow> shell \<Rightarrow> int list \<times> shell" where
  "run_events [] s = ([], s)"
| "run_events (ev # evs) s =
    (case step ev s of
       (issued, s1) \<Rightarrow>
         (case run_events evs s1 of
            (ids, s2) \<Rightarrow> ((case issued of Some jid \<Rightarrow> [jid] | None \<Rightarrow> []) @ ids, s2)))"

section \<open>Notions used in the statements\<close>


text \<open>
  The lexical units of one command: a word that is not an operator, an input redirection
  with its path, an output redirection (appending or not) with its path, and \<open>&\<close>.
\<close>

datatype item = Word string | In string | Out bool string | Amp

fun item_tokens :: "item \<Rightarrow> string list" where
  "item_tokens (Word w) = [w]"
| "item_tokens (In p) = [''<'', p]"
| "item_tokens (Out a p) = [if a then ''>>'' else ''>'', p]"
| "item_tokens Amp = [''&'']"

definition operators :: "string list" where
  "operators = [''|'', ''<'', ''>'', ''>>'', ''&'']"

fun plain :: "item \<Rightarrow> bool" where
  "plain (Word w) = (w \<notin> set operators)"
| "plain i = True"

fun words_of :: "item list \<Rightarrow> string list" where
  "words_of [] = []"
| "words_of (Word w # is) = w # words_of is"
| "words_of (i # is) = words_of is"

text \<open>The path of the last input redirection, the flag and path of the last output
  redirection, and whether \<open>&\<close> occurs.\<close>

fun last_in :: "item list \<Rightarrow> string option" where
  "last_in [] = None"
| "last_in (In p # is) = (case last_in is of None \<Rightarrow> Some p | Some p' \<Rightarrow> Some p')"
| "last_in (i # is) = last_in is"

fun last_out :: "item list \<Rightarrow> (bool \<times> string) option" where
  "last_out [] = None"
| "last_out (Out a p # is) = (case last_out is of None \<Rightarrow> Some (a, p) | Some r \<Rightarrow> Some r)"
| "last_out (i # is) = last_out is"

fun has_amp :: "item list \<Rightarrow> bool" where
  "has_amp [] = False"
| "has_amp (Amp # is) = True"
| "has_amp (i # is) = has_amp is"

text \<open>
  A pipeline with the input path cleared on every stage but the first, and the output
  path, append flag and background flag cleared on every stage but the last.
\<close>

definition effective_at :: "nat \<Rightarrow> nat \<Rightarrow> command \<Rightarrow> command" where
  "effective_at n idx c =
    c\<lparr>inp := (if idx = 0 then inp c else None),
      out := (if Suc idx = n then out c else None),
      append := (if Suc idx = n then append c else False),
      bg := (if Suc idx = n then bg c else False)\<rparr>"

definition effective :: "command list \<Rightarrow> command list" where
  "effective cmds = map (\<lambda>(idx, c). effective_at (length cmds) idx c) (enumerate 0 cmds)"

definition placement_ok :: "command list \<Rightarrow> bool" where
  "placement_ok cmds =
    list_all (\<lambda>(idx, c).
        (idx = 0 \<or> inp c = None) \<and> (Suc idx = length cmds \<or> (out c = None \<and> \<not> bg c)))
      (enumerate 0 cmds)"



text \<open>
  An outside for the examples: \<open>missing.txt\<close> cannot be opened, the program \<open>nosuch\<close>
  cannot be located, the process of stage \<open>idx\<close> gets pid \<open>100 + idx\<close> and exits with
  status \<open>pid - 100\<close>.
\<close>

definition example_env :: env where
  "example_env = \<lparr>
     fs_open = (\<lambda>path mode. if path = ''missing.txt'' then OpenFailed ''no such file'' else Opened),
     popen = (\<lambda>idx av. if hd av = ''nosuch'' then FileNotFoundError else Started (100 + int idx)),
     proc_wait = (\<lambda>pid. Exited (pid - 100)),
     py_int = (\<lambda>w. if w = ''1'' then Some 1 else None),
     py_repr = concat\<rparr>"

text \<open>The command \<^verbatim>\<open>fg 1\<close> as parsed.\<close>

definition fg1 :: command where
  "fg1 = \<lparr>argv = [''fg'', ''1''], inp = None, out = None, append = False, bg = False\<rparr>"

section \<open>Properties of the tokenizer\<close>

lemma takeWhile_append_stop: "\<not> P y \<Longrightarrow> takeWhile P (xs @ y # ys) = takeWhile P xs"
  by (induction xs) auto

lemma dropWhile_append_stop: "\<not> P y \<Longrightarrow> dropWhile P (xs @ y # ys) = dropWhile P xs @ y # ys"
  by (induction xs) auto

lemma quote_not_space: "q \<in> set quotes \<Longrightarrow> \<not> isspace q"
  by (auto simp: quotes_def isspace_def)

lemma quote_not_special: "q \<in> set quotes \<Longrightarrow> q \<notin> set specials"
  by (auto simp: quotes_def specials_def)

lemma quote_not_gt: "q \<in> set quotes \<Longrightarrow> q \<noteq> CHR ''>''"
  by (auto simp: quotes_def)

lemma quote_not_word_char: "q \<in> set quotes \<Longrightarrow> \<not> word_char q"
  by (simp add: word_char_def)

lemma tokenize_quote_closed:
  assumes "q \<in> set quotes" and "q \<notin> set body"
  shows "tokenize (q # body @ q # rest) = body # tokenize rest"
proof -
  have tw: "takeWhile (\<lambda>c. c \<noteq> q) (body @ q # rest) = body"
    using assms(2) by (auto simp add: takeWhile_append_stop takeWhile_eq_all_conv)
  have dw: "dropWhile (\<lambda>c. c \<noteq> q) (body @ q # rest) = q # rest"
    using assms(2) by (auto simp add: dropWhile_append_stop dropWhile_eq_Nil_conv)
  show ?thesis
    using assms(1) quote_not_space [OF assms(1)] quote_not_special [OF assms(1)]
      quote_not_gt [OF assms(1)]
    by (simp add: tw dw)
qed

lemma tokenize_quote_open:
  assumes "q \<in> set quotes" and "q \<notin> set body"
  shows "tokenize (q # body) = [body]"
proof -
  have tw: "takeWhile (\<lambda>c. c \<noteq> q) body = body"
    using assms(2) by (auto simp add: takeWhile_eq_all_conv)
  have dw: "dropWhile (\<lambda>c. c \<noteq> q) body = []"
    using assms(2) by (auto simp add: dropWhile_eq_Nil_conv)
  show ?thesis
    using assms(1) quote_not_space [OF assms(1)] quote_not_special [OF assms(1)]
      quote_not_gt [OF assms(1)]
    by (simp add: tw dw)
qed

text \<open>
  Up to the first quote character of a line the scanner is never inside a quoted segment:
  the tokens of the part before it are those of that part alone, and the quote is met at
  the top of the loop.
\<close>

lemma tokenize_append_quote:
  assumes "q \<in> set quotes"
  shows "set pre \<inter> set quotes = {} \<Longrightarrow>
    tokenize (pre @ q # xs) = tokenize pre @ tokenize (q # xs)"
proof (induction pre rule: tokenize.induct)
  case 1
  show ?case by simp
next
  case (2 ch rest)
  have nq: "ch \<notin> set quotes" and restq: "set rest \<inter> set quotes = {}"
    using "2.prems" by auto
  have qgt: "q \<noteq> CHR ''>''" by (rule quote_not_gt [OF assms])
  show ?case
  proof (cases "isspace ch")
    case True
    with "2.IH"(1) restq show ?thesis by simp
  next
    case sp: False
    show ?thesis
    proof (cases "ch = CHR ''>'' \<and> rest \<noteq> [] \<and> hd rest = CHR ''>''")
      case True
      then obtain r rs where rest: "rest = r # rs" and r: "r = CHR ''>''"
        by (cases rest) auto
      have "set (tl rest) \<inter> set quotes = {}" using restq rest by auto
      with "2.IH"(2) [OF sp True]
      have "tokenize (tl rest @ q # xs) = tokenize (tl rest) @ tokenize (q # xs)" .
      with sp True rest show ?thesis by simp
    next
      case ngg: False
      have ngg': "\<not> (ch = CHR ''>'' \<and> rest @ q # xs \<noteq> [] \<and> hd (rest @ q # xs) = CHR ''>'')"
        using ngg qgt by (cases rest) auto
      show ?thesis
      proof (cases "ch \<in> set specials")
        case True
        have "tokenize (rest @ q # xs) = tokenize rest @ tokenize (q # xs)"
          using "2.IH"(3) [OF sp ngg True] restq .
        then have "tokenize (ch # rest @ q # xs) = [ch] # tokenize rest @ tokenize (q # xs)"
          using sp ngg' True by simp
        moreover have "tokenize (ch # rest) = [ch] # tokenize rest"
          using sp ngg True by simp
        ultimately show ?thesis by simp
      next
        case nspec: False
        have wc: "\<not> word_char q" by (rule quote_not_word_char [OF assms])
        have chgt: "ch \<noteq> CHR ''>''" using nspec by (auto simp: specials_def)
        have "set (dropWhile word_char (ch # rest)) \<subseteq> set (ch # rest)"
          by (rule set_dropWhileD [THEN subsetI])
        then have "set (dropWhile word_char (ch # rest)) \<inter> set quotes = {}"
          using "2.prems" by blast
        with "2.IH"(5) [OF sp ngg nspec nq]
        have ih: "tokenize (dropWhile word_char (ch # rest) @ q # xs) =
            tokenize (dropWhile word_char (ch # rest)) @ tokenize (q # xs)" .
        have tw: "takeWhile word_char ((ch # rest) @ q # xs) = takeWhile word_char (ch # rest)"
          using wc by (rule takeWhile_append_stop)
        have dw: "dropWhile word_char ((ch # rest) @ q # xs) =
            dropWhile word_char (ch # rest) @ q # xs"
          using wc by (rule dropWhile_append_stop)
        have l: "tokenize (ch # rest @ q # xs) =
            takeWhile word_char ((ch # rest) @ q # xs) #
              tokenize (dropWhile word_char ((ch # rest) @ q # xs))"
          using sp chgt nspec nq by (simp del: takeWhile.simps dropWhile.simps)
        have r: "tokenize (ch # rest) =
            takeWhile word_char (ch # rest) # tokenize (dropWhile word_char (ch # rest))"
          using sp chgt nspec nq by (simp del: takeWhile.simps dropWhile.simps)
        show ?thesis
          unfolding append_Cons [symmetric]
          using l r tw dw ih by simp
      qed
    qed
  qed
qed

text \<open>
  C8. At the first quote character \<open>q\<close> of a line (\<open>pre\<close>, the part before it, has no quote
  character), the text \<open>body\<close> up to the matching quote becomes exactly one token, taken
  verbatim whatever it holds, and scanning goes on after the closing quote, where the same
  holds again for the rest of the line. A quote that is never closed takes the text up to
  the end of the line as one token. With an empty \<open>body\<close> the token is the empty string.
\<close>

theorem tokenize_quoted_segment:
  assumes "q \<in> set quotes" and "set pre \<inter> set quotes = {}" and "q \<notin> set body"
  shows "tokenize (pre @ q # body @ q # rest) = tokenize pre @ body # tokenize rest \<and>
         tokenize (pre @ q # body) = tokenize pre @ [body] \<and>
         tokenize (pre @ q # q # rest) = tokenize pre @ [] # tokenize rest"
proof -
  have closed: "tokenize (q # body @ q # rest) = body # tokenize rest"
    by (rule tokenize_quote_closed [OF assms(1) assms(3)])
  have unclosed: "tokenize (q # body) = [body]"
    by (rule tokenize_quote_open [OF assms(1) assms(3)])
  have empty: "tokenize (q # [] @ q # rest) = [] # tokenize rest"
    by (rule tokenize_quote_closed [OF assms(1)]) simp
  show ?thesis
    using tokenize_append_quote [OF assms(1) assms(2)] closed unclosed empty by simp
qed

text \<open>
  The line \<^verbatim>\<open>a "b c" d\<close> gives the three tokens \<open>a\<close>, \<open>b c\<close>, \<open>d\<close>; the unclosed
  \<^verbatim>\<open>a "b c\<close> gives \<open>a\<close>, \<open>b c\<close>; and \<^verbatim>\<open>a ""\<close> followed by \<open> d\<close> gives \<open>a\<close>, the empty
  string, \<open>d\<close>.
\<close>

theorem tokenize_quoted_segment_witness:
  "tokenize (''a '' @ CHR 0x22 # ''b c'' @ CHR 0x22 # '' d'') = [''a'', ''b c'', ''d''] \<and>
   tokenize (''a '' @ CHR 0x22 # ''b c'') = [''a'', ''b c''] \<and>
   tokenize (''a '' @ CHR 0x22 # CHR 0x22 # '' d'') = [''a'', [], ''d'']"
proof -
  have q: "CHR 0x22 \<in> set quotes" by (simp add: quotes_def)
  have pre: "set ''a '' \<inter> set quotes = {}" by (simp add: quotes_def)
  have body: "CHR 0x22 \<notin> set ''b c''" by simp
  have a: "tokenize ''a '' = [''a'']" by code_simp
  have d: "tokenize '' d'' = [''d'']" by code_simp
  show ?thesis
    using tokenize_quoted_segment [OF q pre body, of "'' d''"] a d by simp
qed

section \<open>Properties of the parser\<close>

text \<open>
  The tokens of a run of items, at any place of the token sequence and for any current
  command: the loop appends the words to argv and keeps the last input path, the last
  output path with its append flag, and the background flag.
\<close>

lemma parse_loop_items:
  "list_all plain items \<Longrightarrow>
   parse_loop (concat (map item_tokens items) @ rest) cmds cur =
   parse_loop rest cmds
     (cur\<lparr>argv := argv cur @ words_of items,
          inp := (case last_in items of None \<Rightarrow> inp cur | Some p \<Rightarrow> Some p),
          out := (case last_out items of None \<Rightarrow> out cur | Some (a, p) \<Rightarrow> Some p),
          append := (case last_out items of None \<Rightarrow> append cur | Some (a, p) \<Rightarrow> a),
          bg := (bg cur \<or> has_amp items)\<rparr>)"
proof (induction items arbitrary: cur)
  case Nil
  show ?case by simp
next
  case (Cons i items)
  have rest: "list_all plain items" using Cons.prems by simp
  note ih = Cons.IH [OF rest]
  show ?case
  proof (cases i)
    case (Word w)
    then have "w \<notin> set operators" using Cons.prems by simp
    then have w: "w \<noteq> ''|''" "w \<noteq> ''<''" "w \<noteq> ''>''" "w \<noteq> ''>>''" "w \<noteq> ''&''"
      by (auto simp: operators_def)
    show ?thesis using Word w by (simp add: ih split: option.splits)
  next
    case (In p)
    show ?thesis using In by (simp add: ih split: option.splits)
  next
    case (Out a p)
    show ?thesis using Out by (simp add: ih split: option.splits)
  next
    case Amp
    show ?thesis using Amp by (simp add: ih split: option.splits)
  qed
qed

text \<open>
  C10. A command written as words and redirections, with at least one output redirection,
  the last one being \<open>>\<close> or \<open>>>\<close> (\<open>a\<close>) to the path \<open>p\<close>: wherever the command
  stands in the token sequence, the loop leaves \<open>p\<close> as the output path and \<open>a\<close> as the
  append flag of the current command, and its argv gains the words only, no path. When
  the command is the whole token sequence, \<open>parse_tokens\<close> gives exactly that one command
  (or nothing at all, when it has no word, no input path, no \<open>&\<close> and \<open>p\<close> is the empty string).
\<close>

theorem parse_tokens_last_output_wins:
  assumes "list_all plain items" and "last_out items = Some (a, p)"
  shows "parse_loop (concat (map item_tokens items) @ rest) cmds cur =
           parse_loop rest cmds
             (cur\<lparr>argv := argv cur @ words_of items,
                  inp := (case last_in items of None \<Rightarrow> inp cur | Some f \<Rightarrow> Some f),
                  out := Some p, append := a, bg := (bg cur \<or> has_amp items)\<rparr>) \<and>
         parse_tokens (concat (map item_tokens items)) =
           (if words_of items = [] \<and> \<not> truthy (last_in items) \<and> p = [] \<and> \<not> has_amp items
            then []
            else [\<lparr>argv = words_of items, inp = last_in items, out = Some p, append = a,
                    bg = has_amp items\<rparr>])"
proof -
  have loop: "parse_loop (concat (map item_tokens items) @ rest) cmds cur =
           parse_loop rest cmds
             (cur\<lparr>argv := argv cur @ words_of items,
                  inp := (case last_in items of None \<Rightarrow> inp cur | Some f \<Rightarrow> Some f),
                  out := Some p, append := a, bg := (bg cur \<or> has_amp items)\<rparr>)" for rest cmds cur
    using parse_loop_items [OF assms(1), of rest cmds cur] assms(2) by simp
  have "parse_loop (concat (map item_tokens items)) [] new_command =
      ([], \<lparr>argv = words_of items, inp = last_in items, out = Some p, append = a,
                    bg = has_amp items\<rparr>)"
    using loop [of "[]" "[]" new_command] by (simp add: new_command_def split: option.splits)
  then have "parse_tokens (concat (map item_tokens items)) =
           (if words_of items = [] \<and> \<not> truthy (last_in items) \<and> p = [] \<and> \<not> has_amp items
            then []
            else [\<lparr>argv = words_of items, inp = last_in items, out = Some p, append = a,
                    bg = has_amp items\<rparr>])"
    by (auto simp add: parse_tokens_def truthy_def)
  with loop show ?thesis by blast
qed

text \<open>The tokens of \<^verbatim>\<open>cmd > a.txt x >> b.txt\<close>: the output path is \<open>b.txt\<close>, appending.\<close>

theorem parse_tokens_last_output_wins_witness:
  "parse_tokens [''cmd'', ''>'', ''a.txt'', ''x'', ''>>'', ''b.txt''] =
     [\<lparr>argv = [''cmd'', ''x''], inp = None, out = Some ''b.txt'', append = True, bg = False\<rparr>]"
proof -
  have p: "list_all plain [Word ''cmd'', Out False ''a.txt'', Word ''x'', Out True ''b.txt'']"
    by (simp add: operators_def)
  have l: "last_out [Word ''cmd'', Out False ''a.txt'', Word ''x'', Out True ''b.txt''] = Some (True, ''b.txt'')"
    by simp
  show ?thesis
    using parse_tokens_last_output_wins [OF p l] by simp
qed






section \<open>Properties of the executor\<close>

text \<open>What computing the streams of a stage and closing the files leave unchanged.\<close>

lemma stage_stdin_frame:
  assumes "stage_stdin e idx cmd l s = (i, l1, s1)"
  shows "procs l1 = procs l" "prev_proc l1 = prev_proc l" "out_file l1 = out_file l"
    "jobs s1 = jobs s" "next_job_id s1 = next_job_id s" "launched s1 = launched s"
    "killed s1 = killed s" "waited s1 = waited s"
  using assms
  by (auto simp: stage_stdin_def open_for_read_def print_line_def
      split: if_splits option.splits open_result.splits prod.splits)

lemma stage_stdout_frame:
  assumes "stage_stdout e n idx cmd l s = (ou, l1, s1)"
  shows "procs l1 = procs l" "prev_proc l1 = prev_proc l" "in_file l1 = in_file l"
    "jobs s1 = jobs s" "next_job_id s1 = next_job_id s" "launched s1 = launched s"
    "killed s1 = killed s" "waited s1 = waited s"
  using assms
  by (auto simp: stage_stdout_def open_for_write_def print_line_def Let_def
      split: if_splits option.splits open_result.splits prod.splits)

lemma close_files_frame:
  "jobs (close_files l s) = jobs s" "next_job_id (close_files l s) = next_job_id s"
  "launched (close_files l s) = launched s" "killed (close_files l s) = killed s"
  "waited (close_files l s) = waited s" "printed (close_files l s) = printed s"
  by (auto simp: close_files_def Let_def split: option.splits)

lemma pipeline_loop_all_empty:
  "\<forall>c \<in> set cs. argv c = [] \<Longrightarrow> pipeline_loop e n idx cs l s = (None, l, s)"
  by (induction cs arbitrary: idx) auto

lemma pipeline_loop_append:
  "pipeline_loop e n idx (xs @ ys) l s =
    (case pipeline_loop e n idx xs l s of
       (None, l1, s1) \<Rightarrow> pipeline_loop e n (idx + length xs) ys l1 s1
     | (Some r, l1, s1) \<Rightarrow> (Some r, l1, s1))"
proof (induction xs arbitrary: idx l s)
  case Nil
  show ?case by simp
next
  case (Cons c xs)
  show ?case
    by (simp add: Cons.IH Let_def split: prod.splits popen_result.splits option.splits)
qed

text \<open>One stage with a non-empty argv.\<close>

lemma pipeline_loop_not_found:
  assumes "argv c \<noteq> []"
    and "stage_stdin e idx c l s = (i, l1, s1)"
    and "stage_stdout e n idx c l1 s1 = (ou, l2, s2)"
    and "popen e idx (argv c) = FileNotFoundError"
  shows "pipeline_loop e n idx (c # cs) l s =
        (Some (False, None), l2,
         kill_all (procs l2) (print_line (hd (argv c) @ '': command not found'') s2))"
  using assms by simp

lemma pipeline_loop_other_error:
  assumes "argv c \<noteq> []"
    and "stage_stdin e idx c l s = (i, l1, s1)"
    and "stage_stdout e n idx c l1 s1 = (ou, l2, s2)"
    and "popen e idx (argv c) = OtherError msg"
  shows "pipeline_loop e n idx (c # cs) l s =
        (Some (False, None), l2,
         kill_all (procs l2)
           (print_line (''failed to execute '' @ py_repr e (argv c) @ '': '' @ msg) s2))"
  using assms by simp

lemma pipeline_loop_started:
  assumes "argv c \<noteq> []"
    and "stage_stdin e idx c l s = (i, l1, s1)"
    and "stage_stdout e n idx c l1 s1 = (ou, l2, s2)"
    and "popen e idx (argv c) = Started pid"
  shows "\<exists>s4. pipeline_loop e n idx (c # cs) l s =
      pipeline_loop e n (Suc idx) cs
        (l2\<lparr>procs := procs l @ [\<lparr>p_pid = pid, p_argv = argv c, p_stdin = i, p_stdout = ou\<rparr>],
            prev_proc := Some \<lparr>p_pid = pid, p_argv = argv c, p_stdin = i, p_stdout = ou\<rparr>\<rparr>) s4 \<and>
      launched s4 = launched s @ [\<lparr>p_pid = pid, p_argv = argv c, p_stdin = i, p_stdout = ou\<rparr>] \<and>
      jobs s4 = jobs s \<and> next_job_id s4 = next_job_id s \<and> killed s4 = killed s \<and>
      waited s4 = waited s"
proof -
  let ?proc = "\<lparr>p_pid = pid, p_argv = argv c, p_stdin = i, p_stdout = ou\<rparr>"
  let ?s3 = "s2\<lparr>launched := launched s2 @ [?proc]\<rparr>"
  let ?s4 = "case prev_proc l2 of
               Some pp \<Rightarrow>
                 if p_stdout pp = OutPipe
                 then ?s3\<lparr>closed_pipes := closed_pipes ?s3 @ [p_pid pp]\<rparr> else ?s3
             | None \<Rightarrow> ?s3"
  note f1 = stage_stdin_frame [OF assms(2)]
  note f2 = stage_stdout_frame [OF assms(3)]
  have eq: "pipeline_loop e n idx (c # cs) l s =
      pipeline_loop e n (Suc idx) cs (l2\<lparr>procs := procs l @ [?proc], prev_proc := Some ?proc\<rparr>) ?s4"
    using assms f1(1) f2(1) by (simp add: Let_def)
  have fr: "launched ?s4 = launched s @ [?proc]" "jobs ?s4 = jobs s"
    "next_job_id ?s4 = next_job_id s" "killed ?s4 = killed s" "waited ?s4 = waited s"
    using f1 f2 by (auto split: option.splits)
  show ?thesis using eq fr by blast
qed

text \<open>What every run of the loop keeps.\<close>

lemma pipeline_loop_frame:
  "pipeline_loop e n idx cs l s = (r, l', s') \<Longrightarrow>
    (\<exists>ps. procs l' = procs l @ ps \<and> launched s' = launched s @ ps) \<and>
    jobs s' = jobs s \<and> next_job_id s' = next_job_id s \<and> waited s' = waited s \<and>
    (r = None \<longrightarrow> killed s' = killed s) \<and>
    (r \<noteq> None \<longrightarrow> r = Some (False, None) \<and> killed s' = killed s @ map p_pid (procs l'))"
proof (induction cs arbitrary: idx l s)
  case Nil
  then show ?case by simp
next
  case (Cons c cs)
  show ?case
  proof (cases "argv c = []")
    case True
    with Cons.prems have "pipeline_loop e n (Suc idx) cs l s = (r, l', s')" by simp
    from Cons.IH [OF this] show ?thesis .
  next
    case ne: False
    obtain i l1 s1 where si: "stage_stdin e idx c l s = (i, l1, s1)"
      by (cases "stage_stdin e idx c l s")
    obtain ou l2 s2 where so: "stage_stdout e n idx c l1 s1 = (ou, l2, s2)"
      by (cases "stage_stdout e n idx c l1 s1")
    note f1 = stage_stdin_frame [OF si]
    note f2 = stage_stdout_frame [OF so]
    show ?thesis
    proof (cases "popen e idx (argv c)")
      case (Started pid)
      from pipeline_loop_started [OF ne si so Started, of cs]
      obtain s4 where eq: "pipeline_loop e n idx (c # cs) l s =
          pipeline_loop e n (Suc idx) cs
            (l2\<lparr>procs := procs l @ [\<lparr>p_pid = pid, p_argv = argv c, p_stdin = i, p_stdout = ou\<rparr>],
                prev_proc := Some \<lparr>p_pid = pid, p_argv = argv c, p_stdin = i, p_stdout = ou\<rparr>\<rparr>) s4"
        and fr: "launched s4 = launched s @ [\<lparr>p_pid = pid, p_argv = argv c, p_stdin = i, p_stdout = ou\<rparr>]"
          "jobs s4 = jobs s" "next_job_id s4 = next_job_id s" "killed s4 = killed s"
          "waited s4 = waited s"
        by blast
      from eq Cons.prems have "pipeline_loop e n (Suc idx) cs
            (l2\<lparr>procs := procs l @ [\<lparr>p_pid = pid, p_argv = argv c, p_stdin = i, p_stdout = ou\<rparr>],
                prev_proc := Some \<lparr>p_pid = pid, p_argv = argv c, p_stdin = i, p_stdout = ou\<rparr>\<rparr>) s4
          = (r, l', s')" by simp
      from Cons.IH [OF this] fr show ?thesis by auto
    next
      case FileNotFoundError
      from pipeline_loop_not_found [OF ne si so FileNotFoundError, of cs] Cons.prems
      show ?thesis using f1 f2 by (auto simp: kill_all_def print_line_def)
    next
      case (OtherError msg)
      from pipeline_loop_other_error [OF ne si so OtherError, of cs] Cons.prems
      show ?thesis using f1 f2 by (auto simp: kill_all_def print_line_def)
    qed
  qed
qed

text \<open>When every stage with a non-empty argv can be launched, the loop runs to its end
  and has launched exactly those stages, in order.\<close>

lemma pipeline_loop_all_started:
  "\<forall>k<length cs. argv (cs ! k) \<noteq> [] \<longrightarrow> (\<exists>p. popen e (idx + k) (argv (cs ! k)) = Started p) \<Longrightarrow>
    \<exists>l' s' ps. pipeline_loop e n idx cs l s = (None, l', s') \<and> procs l' = procs l @ ps \<and>
      map p_argv ps = filter (\<lambda>a. a \<noteq> []) (map argv cs)"
proof (induction cs arbitrary: idx l s)
  case Nil
  show ?case by simp
next
  case (Cons c cs)
  have rest: "\<forall>k<length cs. argv (cs ! k) \<noteq> [] \<longrightarrow> (\<exists>p. popen e (Suc idx + k) (argv (cs ! k)) = Started p)"
  proof (intro allI impI)
    fix k assume "k < length cs" "argv (cs ! k) \<noteq> []"
    with Cons.prems [rule_format, of "Suc k"] show "\<exists>p. popen e (Suc idx + k) (argv (cs ! k)) = Started p"
      by simp
  qed
  show ?case
  proof (cases "argv c = []")
    case True
    with Cons.IH [OF rest, of l s] show ?thesis by simp
  next
    case ne: False
    obtain i l1 s1 where si: "stage_stdin e idx c l s = (i, l1, s1)"
      by (cases "stage_stdin e idx c l s")
    obtain ou l2 s2 where so: "stage_stdout e n idx c l1 s1 = (ou, l2, s2)"
      by (cases "stage_stdout e n idx c l1 s1")
    from Cons.prems [rule_format, of 0] ne obtain pid where st: "popen e idx (argv c) = Started pid"
      by auto
    from pipeline_loop_started [OF ne si so st, of cs]
    obtain s4 where eq: "pipeline_loop e n idx (c # cs) l s =
          pipeline_loop e n (Suc idx) cs
            (l2\<lparr>procs := procs l @ [\<lparr>p_pid = pid, p_argv = argv c, p_stdin = i, p_stdout = ou\<rparr>],
                prev_proc := Some \<lparr>p_pid = pid, p_argv = argv c, p_stdin = i, p_stdout = ou\<rparr>\<rparr>) s4"
      by blast
    from Cons.IH [OF rest, of "l2\<lparr>procs := procs l @ [\<lparr>p_pid = pid, p_argv = argv c, p_stdin = i, p_stdout = ou\<rparr>],
                prev_proc := Some \<lparr>p_pid = pid, p_argv = argv c, p_stdin = i, p_stdout = ou\<rparr>\<rparr>" s4]
    show ?thesis using eq ne by auto
  qed
qed

lemma take_all_started:
  assumes "\<forall>k<i. argv (cmds ! k) \<noteq> [] \<longrightarrow> (\<exists>p. popen e k (argv (cmds ! k)) = Started p)"
    and "i \<le> length cmds"
  shows "\<forall>k<length (take i cmds). argv (take i cmds ! k) \<noteq> [] \<longrightarrow>
    (\<exists>p. popen e (0 + k) (argv (take i cmds ! k)) = Started p)"
  using assms by simp

text \<open>
  C9. When every command descriptor has an empty argv, \<open>run_pipeline\<close> returns
  \<open>(False, None)\<close> and the state is the one it started from: no process is launched, no
  job is registered, nothing is opened, printed, killed or waited for, whatever the paths
  and background flags of the descriptors are.
\<close>

theorem run_pipeline_all_empty_argv:
  assumes "\<forall>c \<in> set cmds. argv c = []"
  shows "run_pipeline e cmds s = ((False, None), s)"
  using pipeline_loop_all_empty [OF assms]
  by (simp add: run_pipeline_def close_files_def)

text \<open>Two descriptors with empty argv, one with an output path and the background flag.\<close>

theorem run_pipeline_all_empty_argv_witness:
  "run_pipeline example_env
     [new_command, new_command\<lparr>out := Some ''f'', bg := True\<rparr>] initial_shell =
   ((False, None), initial_shell)"
  using run_pipeline_all_empty_argv
    [of "[new_command, new_command\<lparr>out := Some ''f'', bg := True\<rparr>]" example_env initial_shell]
  by (simp add: new_command_def)

text \<open>
  C1. Stage \<open>i\<close> has a non-empty argv, every earlier stage with a non-empty argv is
  launched, and launching stage \<open>i\<close> raises \<^verbatim>\<open>FileNotFoundError\<close>. Then \<open>run_pipeline\<close>
  returns \<open>(False, None)\<close>; the job table and the job counter are unchanged; the
  processes launched by this call are exactly the earlier stages with a non-empty argv,
  and each of them is killed; the last line printed is the name of the program followed
  by \<open>: command not found\<close>.
\<close>

theorem run_pipeline_command_not_found:
  assumes i: "i < length cmds" and ne: "argv (cmds ! i) \<noteq> []"
    and earlier: "\<forall>k<i. argv (cmds ! k) \<noteq> [] \<longrightarrow> (\<exists>p. popen e k (argv (cmds ! k)) = Started p)"
    and nf: "popen e i (argv (cmds ! i)) = FileNotFoundError"
    and run: "run_pipeline e cmds s = (ret, s')"
  shows "ret = (False, None) \<and> jobs s' = jobs s \<and> next_job_id s' = next_job_id s \<and>
    map p_argv (drop (length (launched s)) (launched s')) =
      filter (\<lambda>a. a \<noteq> []) (map argv (take i cmds)) \<and>
    killed s' = killed s @ map p_pid (drop (length (launched s)) (launched s')) \<and>
    printed s' \<noteq> [] \<and> last (printed s') = hd (argv (cmds ! i)) @ '': command not found''"
proof -
  let ?l0 = "\<lparr>procs = [], prev_proc = None, in_file = None, out_file = None\<rparr>"
  let ?n = "length cmds"
  have split: "cmds = take i cmds @ cmds ! i # drop (Suc i) cmds"
    using i by (rule id_take_nth_drop)
  have len: "length (take i cmds) = i" using i by simp
  from pipeline_loop_all_started [OF take_all_started [OF earlier], of ?n ?l0 s] i
  obtain l1 s1 ps where pre: "pipeline_loop e ?n 0 (take i cmds) ?l0 s = (None, l1, s1)"
    and ps: "procs l1 = ps" "map p_argv ps = filter (\<lambda>a. a \<noteq> []) (map argv (take i cmds))"
    by auto
  from pipeline_loop_frame [OF pre] ps
  have fr1: "launched s1 = launched s @ ps" "jobs s1 = jobs s" "next_job_id s1 = next_job_id s"
    "killed s1 = killed s"
    by auto
  obtain si l2 s2 where sin: "stage_stdin e i (cmds ! i) l1 s1 = (si, l2, s2)"
    by (cases "stage_stdin e i (cmds ! i) l1 s1")
  obtain so l3 s3 where sout: "stage_stdout e ?n i (cmds ! i) l2 s2 = (so, l3, s3)"
    by (cases "stage_stdout e ?n i (cmds ! i) l2 s2")
  note f1 = stage_stdin_frame [OF sin]
  note f2 = stage_stdout_frame [OF sout]
  let ?s4 = "kill_all (procs l3) (print_line (hd (argv (cmds ! i)) @ '': command not found'') s3)"
  have "pipeline_loop e ?n 0 (take i cmds @ cmds ! i # drop (Suc i) cmds) ?l0 s =
      (Some (False, None), l3, ?s4)"
    using pre len pipeline_loop_not_found [OF ne sin sout nf, of "drop (Suc i) cmds"]
    by (simp add: pipeline_loop_append)
  with split have loop: "pipeline_loop e ?n 0 cmds ?l0 s = (Some (False, None), l3, ?s4)"
    by simp
  from run loop have ret: "ret = (False, None)" and s': "s' = close_files l3 ?s4"
    by (simp_all add: run_pipeline_def)
  have "launched s' = launched s @ ps" "killed s' = killed s @ map p_pid ps"
    "jobs s' = jobs s" "next_job_id s' = next_job_id s"
    "printed s' = printed s3 @ [hd (argv (cmds ! i)) @ '': command not found'']"
    using s' f1 f2 fr1 ps(1) by (simp_all add: close_files_frame kill_all_def print_line_def)
  with ret ps(2) show ?thesis by simp
qed

text \<open>
  The pipeline \<^verbatim>\<open>gen | nosuch | head\<close>, where \<open>nosuch\<close> cannot be located: \<open>gen\<close> is
  launched and killed, no job is registered, and the error names \<open>nosuch\<close>.
\<close>

theorem run_pipeline_command_not_found_witness:
  "fst (run_pipeline example_env (parse_line ''gen | nosuch | head'') initial_shell) = (False, None) \<and>
   jobs (snd (run_pipeline example_env (parse_line ''gen | nosuch | head'') initial_shell)) = [] \<and>
   map p_argv (launched (snd (run_pipeline example_env (parse_line ''gen | nosuch | head'') initial_shell)))
     = [[''gen'']] \<and>
   killed (snd (run_pipeline example_env (parse_line ''gen | nosuch | head'') initial_shell)) =
     map p_pid (launched (snd (run_pipeline example_env (parse_line ''gen | nosuch | head'') initial_shell))) \<and>
   last (printed (snd (run_pipeline example_env (parse_line ''gen | nosuch | head'') initial_shell))) =
     ''nosuch: command not found''"
proof -
  let ?cmds = "parse_line ''gen | nosuch | head''"
  have cmds: "?cmds = [new_command\<lparr>argv := [''gen'']\<rparr>, new_command\<lparr>argv := [''nosuch'']\<rparr>,
      new_command\<lparr>argv := [''head'']\<rparr>]"
    by code_simp
  obtain ret s' where run: "run_pipeline example_env ?cmds initial_shell = (ret, s')"
    by (cases "run_pipeline example_env ?cmds initial_shell")
  have h1: "1 < length ?cmds" by (simp add: cmds)
  have h2: "argv (?cmds ! 1) \<noteq> []" by (simp add: cmds)
  have h3: "\<forall>k<1. argv (?cmds ! k) \<noteq> [] \<longrightarrow>
      (\<exists>p. popen example_env k (argv (?cmds ! k)) = Started p)"
    by (simp add: cmds example_env_def)
  have h4: "popen example_env 1 (argv (?cmds ! 1)) = FileNotFoundError"
    by (simp add: cmds example_env_def)
  show ?thesis
    using run_pipeline_command_not_found [OF h1 h2 h3 h4 run] run
    by (simp add: cmds initial_shell_def)
qed



text \<open>
  C4, at a concrete input. \<open>missing.txt\<close> cannot be opened. In the foreground
  \<^verbatim>\<open>cat < missing.txt\<close> prints the redirection error, then launches \<open>cat\<close> with the
  interpreter's own input and waits for it; with \<open>&\<close> the process is launched the same way
  and registered as job 1. The pipeline is not aborted.
\<close>

theorem run_pipeline_open_failure_example:
  "run_pipeline example_env (parse_line ''cat < missing.txt'') initial_shell =
     ((False, Some 0),
      initial_shell
        \<lparr>printed := [''redirection error (input): no such file''],
          launched := [\<lparr>p_pid = 100, p_argv = [''cat''], p_stdin = InheritIn, p_stdout = InheritOut\<rparr>],
          waited := [100]\<rparr>) \<and>
   run_pipeline example_env (parse_line ''cat < missing.txt &'') initial_shell =
     ((True, Some 1),
      initial_shell
        \<lparr>jobs := [(1, \<lparr>pids = [100], cmdline = ''cat'', status = Running\<rparr>)],
          next_job_id := 2,
          printed := [''redirection error (input): no such file'', ''[job 1] 100''],
          launched := [\<lparr>p_pid = 100, p_argv = [''cat''], p_stdin = InheritIn, p_stdout = InheritOut\<rparr>]\<rparr>)"
  by code_simp

text \<open>
  C5, the claim as written fails: in \<^verbatim>\<open>a > f & | b < g\<close> the first stage carries an
  output path and the background flag, and the second, last stage an input path.
\<close>

theorem parse_line_placement_counterexample:
  "parse_line ''a > f & | b < g'' =
     [\<lparr>argv = [''a''], inp = None, out = Some ''f'', append = False, bg = True\<rparr>,
      \<lparr>argv = [''b''], inp = Some ''g'', out = None, append = False, bg = False\<rparr>] \<and>
   \<not> placement_ok (parse_line ''a > f & | b < g'')"
  by code_simp

lemma argv_effective_at: "argv (effective_at n idx c) = argv c"
  by (simp add: effective_at_def)

lemma stage_stdin_effective:
  "stage_stdin e idx (effective_at n idx c) l s = stage_stdin e idx c l s"
  by (simp add: stage_stdin_def effective_at_def)

lemma stage_stdout_effective:
  "stage_stdout e n idx (effective_at n idx c) l s = stage_stdout e n idx c l s"
  by (simp add: stage_stdout_def effective_at_def)

lemma pipeline_loop_effective:
  "pipeline_loop e n idx (map (\<lambda>(i, c). effective_at n i c) (enumerate idx cs)) l s =
   pipeline_loop e n idx cs l s"
proof (induction cs arbitrary: idx l s)
  case Nil
  show ?case by simp
next
  case (Cons c cs)
  show ?case
    by (simp add: argv_effective_at stage_stdin_effective stage_stdout_effective Cons.IH
        cong: prod.case_cong popen_result.case_cong)
qed

lemma length_effective: "length (effective cmds) = length cmds"
  by (simp add: effective_def)

lemma nth_effective:
  "k < length cmds \<Longrightarrow> effective cmds ! k = effective_at (length cmds) k (cmds ! k)"
  by (simp add: effective_def nth_enumerate_eq)

lemma argv_effective: "map argv (effective cmds) = map argv cmds"
  by (rule nth_equalityI) (simp_all add: length_effective nth_effective argv_effective_at)

lemma bg_last_effective: "cmds \<noteq> [] \<Longrightarrow> bg (last (effective cmds)) = bg (last cmds)"
proof -
  assume ne: "cmds \<noteq> []"
  then have "effective cmds \<noteq> []" using length_effective [of cmds] by auto
  then have "last (effective cmds) = effective cmds ! (length cmds - 1)"
    by (simp add: last_conv_nth length_effective)
  also have "\<dots> = effective_at (length cmds) (length cmds - 1) (cmds ! (length cmds - 1))"
    using ne by (simp add: nth_effective)
  finally show ?thesis using ne by (simp add: effective_at_def last_conv_nth)
qed

lemma placement_ok_effective: "placement_ok (effective cmds)"
  unfolding placement_ok_def list_all_length
  by (auto simp: length_effective nth_enumerate_eq nth_effective effective_at_def)

text \<open>
  C5, amended. The parser records a path or the background flag on the stage in which
  the operator stands, whichever stage that is; it is \<open>run_pipeline\<close> that reads the input
  path of the first stage only, and the output path, append flag and background flag of
  the last stage only. Clearing them on every other stage gives a pipeline in which only
  the first stage carries an input path and only the last an output path or the
  background flag, and on which \<open>run_pipeline\<close> returns the same result with the same
  effects.
\<close>

theorem run_pipeline_effective_stages:
  "run_pipeline e (effective cmds) s = run_pipeline e cmds s \<and> placement_ok (effective cmds)"
proof -
  have loop: "pipeline_loop e (length cmds) 0 (effective cmds) l s' =
      pipeline_loop e (length cmds) 0 cmds l s'" for l s'
    unfolding effective_def by (rule pipeline_loop_effective)
  have "run_pipeline e (effective cmds) s = run_pipeline e cmds s"
  proof (cases "cmds = []")
    case True
    then show ?thesis by (simp add: effective_def)
  next
    case False
    show ?thesis
      unfolding run_pipeline_def length_effective loop argv_effective bg_last_effective [OF False]
      by (rule refl)
  qed
  then show ?thesis using placement_ok_effective by simp
qed

text \<open>For \<^verbatim>\<open>a > f & | b < g\<close> the run is that of \<^verbatim>\<open>a | b\<close>.\<close>

theorem run_pipeline_effective_stages_witness:
  "effective (parse_line ''a > f & | b < g'') =
     [\<lparr>argv = [''a''], inp = None, out = None, append = False, bg = False\<rparr>,
      \<lparr>argv = [''b''], inp = None, out = None, append = False, bg = False\<rparr>] \<and>
   run_pipeline example_env (parse_line ''a > f & | b < g'') initial_shell =
   run_pipeline example_env
     [\<lparr>argv = [''a''], inp = None, out = None, append = False, bg = False\<rparr>,
      \<lparr>argv = [''b''], inp = None, out = None, append = False, bg = False\<rparr>] initial_shell \<and>
   placement_ok (effective (parse_line ''a > f & | b < g''))"
proof -
  have eff: "effective (parse_line ''a > f & | b < g'') =
     [\<lparr>argv = [''a''], inp = None, out = None, append = False, bg = False\<rparr>,
      \<lparr>argv = [''b''], inp = None, out = None, append = False, bg = False\<rparr>]"
    by code_simp
  show ?thesis
    using run_pipeline_effective_stages [of example_env "parse_line ''a > f & | b < g''" initial_shell]
    by (simp add: eff)
qed

section \<open>Properties of the job table\<close>

text \<open>What a pipeline run, the notifier and \<open>fg\<close> do to the counter and to the table.\<close>

lemma run_pipeline_jobs:
  assumes "run_pipeline e cmds s = ((is_bg, info), s')"
  shows "(\<not> is_bg \<and> jobs s' = jobs s \<and> next_job_id s' = next_job_id s) \<or>
     (is_bg \<and> info = Some (next_job_id s) \<and> next_job_id s' = next_job_id s + 1 \<and>
      (\<exists>j. jobs s' = AList.update (next_job_id s) j (jobs s)))"
proof -
  let ?l0 = "\<lparr>procs = [], prev_proc = None, in_file = None, out_file = None\<rparr>"
  obtain r l s1 where loop: "pipeline_loop e (length cmds) 0 cmds ?l0 s = (r, l, s1)"
    by (cases "pipeline_loop e (length cmds) 0 cmds ?l0 s")
  from pipeline_loop_frame [OF loop]
  have fr: "jobs s1 = jobs s" "next_job_id s1 = next_job_id s"
    and early: "r \<noteq> None \<Longrightarrow> r = Some (False, None)"
    by auto
  show ?thesis
  proof (cases r)
    case (Some ret)
    with early have "ret = (False, None)" by simp
    with assms loop Some fr show ?thesis
      by (auto simp: run_pipeline_def close_files_frame)
  next
    case None
    show ?thesis
    proof (cases "procs l = []")
      case True
      with assms loop None fr show ?thesis
        by (auto simp: run_pipeline_def close_files_frame)
    next
      case ne: False
      show ?thesis
      proof (cases "bg (last cmds)")
        case True
        with assms loop None ne fr show ?thesis
          by (auto simp: run_pipeline_def close_files_frame register_job_def print_line_def Let_def)
      next
        case False
        with assms loop None ne fr show ?thesis
          by (auto simp: run_pipeline_def close_files_frame kill_all_def Let_def
              split: wait_result.splits)
      qed
    qed
  qed
qed

lemma update_scan_keys: "map fst (fst (update_scan js pid ec)) = map fst js"
  by (induction js pid ec rule: update_scan.induct) (auto split: prod.splits)


lemma update_job_status_frame:
  "next_job_id (snd (update_job_status pid ec s)) = next_job_id s"
  "map fst (jobs (snd (update_job_status pid ec s))) = map fst (jobs s)"
  using update_scan_keys [of "jobs s" pid ec]
  by (auto simp: update_job_status_def split: prod.splits)


lemma sigchld_handler_frame:
  "next_job_id (sigchld_handler reaped s) = next_job_id s \<and>
   map fst (jobs (sigchld_handler reaped s)) = map fst (jobs s)"
proof (induction reaped s rule: sigchld_handler.induct)
  case (1 s)
  show ?case by simp
next
  case (2 pid st later s)
  show ?case
  proof (cases "pid = 0")
    case True
    then show ?thesis by simp
  next
    case False
    let ?ec = "case st of WExited c \<Rightarrow> Some c | WSignaled sig \<Rightarrow> None"
    obtain jid s1 where u: "update_job_status pid ?ec s = (jid, s1)"
      by (cases "update_job_status pid ?ec s")
    have f: "next_job_id s1 = next_job_id s" "map fst (jobs s1) = map fst (jobs s)"
      using update_job_status_frame [of pid ?ec s] u by simp_all
    show ?thesis
      using False u f "2.IH" [OF False refl u [symmetric] refl refl]
      by (auto simp: print_line_def Let_def split: option.splits)
  qed
qed



lemma map_entry_keys: "map fst (AList.map_entry k f xs) = map fst xs"
  by (induction xs) auto

lemma builtin_fg_frame:
  "next_job_id (snd (builtin_fg e cmd s)) = next_job_id s"
  "map fst (jobs (snd (builtin_fg e cmd s))) = map fst (jobs s)"
  by (auto simp: builtin_fg_def print_line_def Let_def map_entry_keys split: option.splits)


text \<open>What one call does to the counter and to the keys of the table.\<close>

lemma step_counter:
  assumes "step ev s = (issued, s1)"
  shows "(issued = None \<and> next_job_id s1 = next_job_id s \<and> map fst (jobs s1) = map fst (jobs s)) \<or>
    (issued = Some (next_job_id s) \<and> next_job_id s1 = next_job_id s + 1 \<and>
      (\<exists>j. jobs s1 = AList.update (next_job_id s) j (jobs s)))"
proof (cases ev)
  case (Register ps cl st)
  with assms show ?thesis by (auto simp: register_job_def Let_def)
next
  case (Run e cmds)
  obtain is_bg info s' where r: "run_pipeline e cmds s = ((is_bg, info), s')"
    by (cases "run_pipeline e cmds s") auto
  from run_pipeline_jobs [OF r] r Run assms show ?thesis by auto
next
  case (Sigchld reaped)
  with assms sigchld_handler_frame [of reaped s] show ?thesis by auto
next
  case (Fg e cmd)
  with assms builtin_fg_frame [of e cmd s] show ?thesis by auto
qed

lemma run_events_ids:
  "run_events evs s = (ids, s') \<Longrightarrow>
    next_job_id s \<le> next_job_id s' \<and> ids = [next_job_id s .. next_job_id s' - 1]"
proof (induction evs arbitrary: s ids)
  case Nil
  then show ?case by simp
next
  case (Cons ev evs)
  obtain issued s1 where st: "step ev s = (issued, s1)" by (cases "step ev s")
  obtain ids1 where rest: "run_events evs s1 = (ids1, s')"
    using Cons.prems st by (auto split: prod.splits)
  have ids: "ids = (case issued of Some jid \<Rightarrow> [jid] | None \<Rightarrow> []) @ ids1"
    using Cons.prems st rest by simp
  from Cons.IH [OF rest]
  have ih: "next_job_id s1 \<le> next_job_id s'" "ids1 = [next_job_id s1 .. next_job_id s' - 1]"
    by simp_all
  from step_counter [OF st] show ?case
  proof
    assume "issued = None \<and> next_job_id s1 = next_job_id s \<and> map fst (jobs s1) = map fst (jobs s)"
    with ids ih show ?thesis by simp
  next
    assume a: "issued = Some (next_job_id s) \<and> next_job_id s1 = next_job_id s + 1 \<and>
      (\<exists>j. jobs s1 = AList.update (next_job_id s) j (jobs s))"
    then have "[next_job_id s .. next_job_id s' - 1] = next_job_id s # [next_job_id s1 .. next_job_id s' - 1]"
      using ih(1) by (simp add: upto_rec1)
    with a ids ih show ?thesis by simp
  qed
qed

text \<open>
  C6. From the start of the interpreter, over any sequence of registrations, pipeline
  runs, notifier invocations and \<open>fg\<close> calls, the job identifiers issued are 1, 2, 3 and
  so on in the order of registration: the first is 1, they are strictly increasing, and
  none is issued twice, whatever has become of the earlier jobs.
\<close>

theorem job_ids_increasing:
  "fst (run_events evs initial_shell) = [1 .. int (length (fst (run_events evs initial_shell)))] \<and>
   sorted_wrt (<) (fst (run_events evs initial_shell)) \<and>
   distinct (fst (run_events evs initial_shell))"
proof -
  obtain ids s' where r: "run_events evs initial_shell = (ids, s')"
    by (cases "run_events evs initial_shell")
  from run_events_ids [OF r]
  have le: "1 \<le> next_job_id s'" and ids: "ids = [1 .. next_job_id s' - 1]"
    by (simp_all add: initial_shell_def)
  have "int (length ids) = next_job_id s' - 1" using le ids by simp
  with ids have "ids = [1 .. int (length ids)]" by simp
  moreover have "sorted_wrt (<) ids" "distinct ids" using ids by (simp_all add: sorted_wrt_upto)
  ultimately show ?thesis using r by simp
qed

text \<open>Job 1 is registered, reaped and brought to the foreground (its status is then
  \<open>done\<close>); the next two registrations get 2 and 3.\<close>

theorem job_ids_increasing_witness:
  "fst (run_events
     [Run example_env (parse_line ''a &''), Sigchld [(100, WExited 0)], Fg example_env fg1,
      Register [5] ''x'' Running, Register [6] ''y'' Running] initial_shell) =
   [1, 2, 3]"
proof -
  let ?evs = "[Run example_env (parse_line ''a &''), Sigchld [(100, WExited 0)], Fg example_env fg1,
      Register [5] ''x'' Running, Register [6] ''y'' Running]"
  have l: "length (fst (run_events ?evs initial_shell)) = 3" by code_simp
  have u: "[1 .. int 3] = [1, 2, 3]" by code_simp
  have "fst (run_events ?evs initial_shell) =
      [1 .. int (length (fst (run_events ?evs initial_shell)))]"
    using job_ids_increasing [of ?evs] by (rule conjunct1)
  then have "fst (run_events ?evs initial_shell) = [1 .. int 3]"
    by (simp only: l)
  then show ?thesis by (simp only: u)
qed













end
